theory Spec2Isabelle
  imports Main "HOL-Library.Word"
begin

section \<open>Machine model\<close>

text \<open>
  The embedding follows \<^verbatim>\<open>src/vector.c\<close> on an LP64 platform: \<^verbatim>\<open>int\<close> is a 32-bit
  two's complement word read with \<open>sint\<close>, \<^verbatim>\<open>size_t\<close> is a 64-bit unsigned word, and a
  \<^verbatim>\<open>void *\<close> occupies 8 bytes. A conversion from \<^verbatim>\<open>int\<close> to \<^verbatim>\<open>size_t\<close> is \<open>scast\<close>
  (sign extension, then read as unsigned), which is what the cast \<^verbatim>\<open>(size_t) v->size\<close> and
  the usual arithmetic conversions of \<^verbatim>\<open>i < (size_t) v->size\<close> do.

  The embedding abstracts from the byte layout of the heap: the struct is a record, the
  block behind \<^verbatim>\<open>elems\<close> is a list of slots, and a pointer into the block is a slot
  offset. A slot that has never been written holds \<open>None\<close> (an indeterminate value);
  a stored handle \<open>x\<close> is \<open>Some x\<close>. The allocator is idealised: \<^verbatim>\<open>malloc\<close> and
  \<^verbatim>\<open>realloc\<close> always return a block, so the two assertions of \<^verbatim>\<open>vector_create\<close> on
  their results hold.
\<close>

type_synonym cint = "32 word"
type_synonym size_t = "64 word"
type_synonym 'a block = "'a option list"

text \<open>
  What stops a call: a failed \<^verbatim>\<open>assert\<close> (the process aborts), and the undefined
  behaviours the functions can run into: signed overflow of an \<^verbatim>\<open>int\<close>, an access
  outside the allocated block, and the use of an indeterminate slot value.
\<close>

datatype fault = AssertionFailed | SignedOverflow | OutOfBlock | IndeterminateRead

text \<open>
  Every access to the element slots is recorded, so that a statement can say that a call
  stopped before touching any slot: a read of one slot, a write of one slot, a move of
  \<open>n\<close> slots (\<^verbatim>\<open>memmove\<close>: destination, source, count), and the copy of \<open>n\<close> slots that
  \<^verbatim>\<open>realloc\<close> makes into the new block.
\<close>

datatype access = Load int | Store int | Move int int nat | Copy nat

type_synonym 'r run = "(fault + 'r) \<times> access list"

definition ret :: "'r \<Rightarrow> 'r run" where
  "ret x = (Inr x, [])"

definition abort :: "fault \<Rightarrow> 'r run" where
  "abort e = (Inl e, [])"

definition bind :: "'r run \<Rightarrow> ('r \<Rightarrow> 's run) \<Rightarrow> 's run" where
  "bind m f =
     (case m of
        (Inl e, l) \<Rightarrow> (Inl e, l)
      | (Inr x, l) \<Rightarrow> (case f x of (r, l') \<Rightarrow> (r, l @ l')))"

subsection \<open>Arithmetic on \<^verbatim>\<open>int\<close>\<close>

definition int_fits :: "int \<Rightarrow> bool" where
  "int_fits r = (- (2 ^ 31) \<le> r \<and> r < 2 ^ 31)"

definition add_int :: "cint \<Rightarrow> cint \<Rightarrow> cint run" where
  "add_int a b = (if int_fits (sint a + sint b) then ret (a + b) else abort SignedOverflow)"

definition sub_int :: "cint \<Rightarrow> cint \<Rightarrow> cint run" where
  "sub_int a b = (if int_fits (sint a - sint b) then ret (a - b) else abort SignedOverflow)"

definition mul_int :: "cint \<Rightarrow> cint \<Rightarrow> cint run" where
  "mul_int a b = (if int_fits (sint a * sint b) then ret (a * b) else abort SignedOverflow)"

definition sizeof_ptr :: size_t where
  "sizeof_ptr = 8"

subsection \<open>The block of slots\<close>

definition in_block :: "'a block \<Rightarrow> int \<Rightarrow> nat \<Rightarrow> bool" where
  "in_block m p n = (0 \<le> p \<and> p + int n \<le> int (length m))"

definition load :: "'a block \<Rightarrow> int \<Rightarrow> 'a run" where
  "load m p =
     (if in_block m p 1
      then (case m ! nat p of
              None \<Rightarrow> (Inl IndeterminateRead, [Load p])
            | Some x \<Rightarrow> (Inr x, [Load p]))
      else abort OutOfBlock)"

definition store :: "'a block \<Rightarrow> int \<Rightarrow> 'a \<Rightarrow> 'a block run" where
  "store m p x =
     (if in_block m p 1 then (Inr (m[nat p := Some x]), [Store p]) else abort OutOfBlock)"

text \<open>
  \<^verbatim>\<open>memmove(dst, src, nbytes)\<close> copies as if through a temporary buffer, so the slots
  read are those of the block before the call, whatever the overlap.
\<close>

definition memmove :: "'a block \<Rightarrow> int \<Rightarrow> int \<Rightarrow> size_t \<Rightarrow> 'a block run" where
  "memmove m dst src nbytes =
     (let n = unat nbytes div unat sizeof_ptr in
      if in_block m dst n \<and> in_block m src n
      then (Inr (take (nat dst) m @ take n (drop (nat src) m) @ drop (nat dst + n) m),
            [Move dst src n])
      else abort OutOfBlock)"

definition malloc :: "size_t \<Rightarrow> 'a block run" where
  "malloc nbytes = ret (replicate (unat nbytes div unat sizeof_ptr) None)"

text \<open>
  \<^verbatim>\<open>realloc\<close> keeps the contents up to the smaller of the two sizes; the slots it adds
  are indeterminate.
\<close>

definition realloc :: "'a block \<Rightarrow> size_t \<Rightarrow> 'a block run" where
  "realloc m nbytes =
     (let n = unat nbytes div unat sizeof_ptr in
      (Inr (take n m @ replicate (n - length m) None), [Copy (min n (length m))]))"

section \<open>The vector\<close>

record 'a vector =
  elems :: "'a block"
  capacity :: cint
  size_v :: cint

definition vector_create :: "'a vector run" where
  "vector_create =
     bind (malloc sizeof_ptr) (\<lambda>m.
     ret \<lparr>elems = m, capacity = 1, size_v = 0\<rparr>)"

definition vector_size :: "'a vector \<Rightarrow> cint" where
  "vector_size v = size_v v"

definition vector_in_bounds :: "'a vector \<Rightarrow> cint \<Rightarrow> bool" where
  "vector_in_bounds v i = ((scast i :: size_t) < (scast (size_v v) :: size_t))"

definition get_element :: "'a vector \<Rightarrow> cint \<Rightarrow> int run" where
  "get_element v i =
     (if (scast i :: size_t) < (scast (size_v v) :: size_t)
      then ret (sint i)
      else abort AssertionFailed)"

definition extend_if_necessary :: "'a vector \<Rightarrow> 'a vector run" where
  "extend_if_necessary v =
     (if capacity v <s size_v v
      then bind (mul_int (capacity v) 2) (\<lambda>c.
           bind (realloc (elems v) (scast c * sizeof_ptr)) (\<lambda>m.
           ret (v\<lparr>capacity := c, elems := m\<rparr>)))
      else ret v)"

definition vector_set :: "'a vector \<Rightarrow> cint \<Rightarrow> 'a \<Rightarrow> 'a vector run" where
  "vector_set v i x =
     bind (get_element v i) (\<lambda>target.
     bind (store (elems v) target x) (\<lambda>m.
     ret (v\<lparr>elems := m\<rparr>)))"

definition vector_get :: "'a vector \<Rightarrow> cint \<Rightarrow> 'a run" where
  "vector_get v i =
     bind (get_element v i) (\<lambda>target.
     load (elems v) target)"

definition vector_insert :: "'a vector \<Rightarrow> cint \<Rightarrow> 'a \<Rightarrow> 'a vector run" where
  "vector_insert v i x =
     bind (add_int (size_v v) 1) (\<lambda>s.
     bind (extend_if_necessary (v\<lparr>size_v := s\<rparr>)) (\<lambda>v1.
     bind (get_element v1 i) (\<lambda>target.
     bind (sub_int (size_v v1) i) (\<lambda>d.
     bind (sub_int d 1) (\<lambda>remaining.
     bind (memmove (elems v1) (target + 1) target (scast remaining * sizeof_ptr)) (\<lambda>m.
     bind (store m target x) (\<lambda>m'.
     ret (v1\<lparr>elems := m'\<rparr>))))))))"

definition vector_remove :: "'a vector \<Rightarrow> cint \<Rightarrow> ('a \<times> 'a vector) run" where
  "vector_remove v i =
     bind (get_element v i) (\<lambda>target.
     bind (load (elems v) target) (\<lambda>result.
     bind (sub_int (size_v v) i) (\<lambda>d.
     bind (sub_int d 1) (\<lambda>remaining.
     bind (memmove (elems v) target (target + 1) (scast remaining * sizeof_ptr)) (\<lambda>m.
     bind (sub_int (size_v v) 1) (\<lambda>s.
     ret (result, v\<lparr>elems := m, size_v := s\<rparr>)))))))"

definition vector_push :: "'a vector \<Rightarrow> 'a \<Rightarrow> 'a vector run" where
  "vector_push v x = vector_insert v (size_v v) x"

definition vector_pop :: "'a vector \<Rightarrow> ('a \<times> 'a vector) run" where
  "vector_pop v =
     bind (sub_int (size_v v) 1) (\<lambda>i.
     vector_remove v i)"

section \<open>Well-formed vectors and the calls of a client\<close>

text \<open>
  The representation invariant: \<open>0 \<le> size \<le> capacity\<close>, \<open>1 \<le> capacity\<close>, the block has
  \<open>capacity\<close> slots, and every slot below \<open>size\<close> holds a handle.
\<close>

definition vector_inv :: "'a vector \<Rightarrow> bool" where
  "vector_inv v =
     (0 \<le> sint (size_v v) \<and> sint (size_v v) \<le> sint (capacity v) \<and> 1 \<le> sint (capacity v) \<and>
      length (elems v) = nat (sint (capacity v)) \<and>
      None \<notin> set (take (nat (sint (size_v v))) (elems v)))"

text \<open>The element sequence of a vector: the handles in the slots \<open>[0, size)\<close>.\<close>

definition contents :: "'a vector \<Rightarrow> 'a list" where
  "contents v = map the (take (nat (sint (size_v v))) (elems v))"

text \<open>
  The state that \<^verbatim>\<open>v->size += 1; extend_if_necessary(v);\<close> leaves when the doubling
  does not overflow, in closed form.
\<close>

definition grown :: "'a vector \<Rightarrow> 'a vector" where
  "grown v =
     (if sint (size_v v) < sint (capacity v)
      then v\<lparr>size_v := size_v v + 1\<rparr>
      else v\<lparr>elems := elems v @ replicate (nat (sint (capacity v))) None,
             capacity := capacity v * 2,
             size_v := size_v v + 1\<rparr>)"

text \<open>
  The mutating calls a client can make, with the preconditions of the specification's
  operation table, and the states a client can reach from \<^verbatim>\<open>vector_create\<close> by calls
  made under their preconditions that return.
\<close>

datatype 'a call =
  Call_set cint 'a | Call_insert cint 'a | Call_remove cint | Call_push 'a | Call_pop

fun precondition :: "'a vector \<Rightarrow> 'a call \<Rightarrow> bool" where
  "precondition v (Call_set i x) = (0 \<le> sint i \<and> sint i < sint (size_v v))"
| "precondition v (Call_insert i x) = (0 \<le> sint i \<and> sint i \<le> sint (size_v v))"
| "precondition v (Call_remove i) = (0 \<le> sint i \<and> sint i < sint (size_v v))"
| "precondition v (Call_push x) = True"
| "precondition v Call_pop = (0 < sint (size_v v))"

fun run_call :: "'a vector \<Rightarrow> 'a call \<Rightarrow> fault + 'a vector" where
  "run_call v (Call_set i x) = fst (vector_set v i x)"
| "run_call v (Call_insert i x) = fst (vector_insert v i x)"
| "run_call v (Call_remove i) = map_sum id snd (fst (vector_remove v i))"
| "run_call v (Call_push x) = fst (vector_push v x)"
| "run_call v Call_pop = map_sum id snd (fst (vector_pop v))"

inductive reachable :: "'a vector \<Rightarrow> bool" where
  created: "fst vector_create = Inr v \<Longrightarrow> reachable v"
| called: "reachable v \<Longrightarrow> precondition v c \<Longrightarrow> run_call v c = Inr v' \<Longrightarrow> reachable v'"

text \<open>
  The capacity after \<open>n\<close> pushes onto a fresh vector, and the state those pushes leave
  when every push stores the same handle.
\<close>

fun cap_after :: "nat \<Rightarrow> nat" where
  "cap_after 0 = 1"
| "cap_after (Suc n) = (if cap_after n < Suc n then 2 * cap_after n else cap_after n)"

definition pushed :: "nat \<Rightarrow> 'a \<Rightarrow> 'a vector" where
  "pushed n x =
     \<lparr>elems = replicate n (Some x) @ replicate (cap_after n - n) None,
      capacity = of_nat (cap_after n),
      size_v = of_nat n\<rparr>"

text \<open>
  Two concrete vectors: one holding three handles in a block of four slots, and one holding
  \<open>2 ^ 30\<close> handles in a block of \<open>2 ^ 30\<close> slots.
\<close>

definition sample :: "nat vector" where
  "sample = \<lparr>elems = [Some 10, Some 20, Some 30, None], capacity = 4, size_v = 3\<rparr>"

definition full_vector :: "nat vector" where
  "full_vector =
     \<lparr>elems = replicate (2 ^ 30) (Some 0), capacity = 1073741824, size_v = 1073741824\<rparr>"

section \<open>Words and the conversion to \<^verbatim>\<open>size_t\<close>\<close>

lemma sint_cint_range: "- (2 ^ 31) \<le> sint (w :: cint) \<and> sint w < 2 ^ 31"
  using sint_ge [of w] sint_lt [of w] by simp

lemma uint_scast_cint:
  "uint (scast (w :: cint) :: size_t) = (if 0 \<le> sint w then sint w else 2 ^ 64 + sint w)"
proof -
  have "uint (scast w :: size_t) = take_bit 64 (sint (scast w :: size_t))"
    by (simp add: uint_sint)
  also have "sint (scast w :: size_t) = sint w"
    by (rule sint_up_scast) (simp add: is_up)
  finally have e: "uint (scast w :: size_t) = sint w mod 2 ^ 64"
    by (simp add: take_bit_eq_mod)
  show ?thesis
  proof (cases "0 \<le> sint w")
    case True
    then show ?thesis using e sint_cint_range [of w] by simp
  next
    case False
    then have "sint w mod 2 ^ 64 = 2 ^ 64 + sint w"
      using sint_cint_range [of w]
      by (intro int_mod_pos_eq [where q = "-1"]) auto
    then show ?thesis using e False by simp
  qed
qed

lemma ult_scast_iff:
  fixes i s :: cint
  assumes "0 \<le> sint s"
  shows "((scast i :: size_t) < scast s) \<longleftrightarrow> (0 \<le> sint i \<and> sint i < sint s)"
  using assms sint_cint_range [of i] sint_cint_range [of s]
  by (auto simp: word_less_alt uint_scast_cint)

lemma sint_add_fits: "int_fits (sint (a::cint) + sint b) \<Longrightarrow> sint (a + b) = sint a + sint b"
  by (simp add: int_fits_def sint_word_add signed_take_bit_int_eq_self)

lemma sint_sub_fits: "int_fits (sint (a::cint) - sint b) \<Longrightarrow> sint (a - b) = sint a - sint b"
  by (simp add: int_fits_def sint_word_diff signed_take_bit_int_eq_self)

lemma sint_mul_fits: "int_fits (sint (a::cint) * sint b) \<Longrightarrow> sint (a * b) = sint a * sint b"
  by (simp add: int_fits_def sint_word_mult signed_take_bit_int_eq_self)

lemma slots_of_bytes:
  fixes r :: cint
  assumes "0 \<le> sint r"
  shows "unat ((scast r :: size_t) * sizeof_ptr) div unat sizeof_ptr = nat (sint r)"
proof -
  have u: "uint (scast r :: size_t) = sint r"
    using assms by (simp add: uint_scast_cint)
  have "uint ((scast r :: size_t) * 8) = (sint r * 8) mod 2 ^ 64"
    using u by (simp add: uint_word_ariths)
  also have "\<dots> = sint r * 8"
    using assms sint_cint_range [of r] by simp
  finally have "unat ((scast r :: size_t) * 8) = nat (sint r * 8)"
    by (simp add: unat_eq_nat_uint)
  then show ?thesis
    using assms by (simp add: sizeof_ptr_def nat_mult_distrib)
qed

section \<open>The primitives when they succeed\<close>

lemma bind_ok: "m = (Inr x, l) \<Longrightarrow> bind m f = (fst (f x), l @ snd (f x))"
  by (simp add: bind_def split: prod.splits)

lemma bind_ret: "bind (ret x) f = f x"
  by (simp add: bind_def ret_def split: prod.splits)

lemma bind_fault: "m = (Inl e, l) \<Longrightarrow> bind m f = (Inl e, l)"
  by (simp add: bind_def)

lemma get_element_ok:
  "0 \<le> sint (size_v v) \<Longrightarrow> 0 \<le> sint i \<Longrightarrow> sint i < sint (size_v v) \<Longrightarrow>
   get_element v i = ret (sint i)"
  by (simp add: get_element_def ult_scast_iff)

lemma get_element_fail:
  "0 \<le> sint (size_v v) \<Longrightarrow> \<not> (0 \<le> sint i \<and> sint i < sint (size_v v)) \<Longrightarrow>
   get_element v i = abort AssertionFailed"
  by (auto simp: get_element_def ult_scast_iff)

lemma sub_int_ok:
  "int_fits (sint a - sint b) \<Longrightarrow> sub_int a b = ret (a - b)"
  by (simp add: sub_int_def)

lemma add_int_ok:
  "int_fits (sint a + sint b) \<Longrightarrow> add_int a b = ret (a + b)"
  by (simp add: add_int_def)

lemma memmove_ok:
  "0 \<le> sint (r :: cint) \<Longrightarrow> in_block m dst (nat (sint r)) \<Longrightarrow> in_block m src (nat (sint r)) \<Longrightarrow>
   memmove m dst src (scast r * sizeof_ptr) =
     (Inr (take (nat dst) m @ take (nat (sint r)) (drop (nat src) m) @ drop (nat dst + nat (sint r)) m),
      [Move dst src (nat (sint r))])"
proof -
  assume a: "0 \<le> sint (r :: cint)" "in_block m dst (nat (sint r))" "in_block m src (nat (sint r))"
  have n: "unat ((scast r :: size_t) * sizeof_ptr) div unat sizeof_ptr = nat (sint r)"
    using a(1) by (rule slots_of_bytes)
  show ?thesis
    unfolding memmove_def Let_def n using a by simp
qed

lemma load_ok:
  "0 \<le> p \<Longrightarrow> nat p < length m \<Longrightarrow> m ! nat p = Some x \<Longrightarrow> load m p = (Inr x, [Load p])"
  by (auto simp: load_def in_block_def)

lemma store_ok:
  "0 \<le> p \<Longrightarrow> nat p < length m \<Longrightarrow> store m p x = (Inr (m[nat p := Some x]), [Store p])"
  by (auto simp: store_def in_block_def)

lemma slot_initialised:
  assumes "vector_inv v" "k < nat (sint (size_v v))"
  shows "elems v ! k = Some (contents v ! k)" and "k < length (elems v)"
proof -
  from assms show l: "k < length (elems v)" unfolding vector_inv_def by linarith
  have "take (nat (sint (size_v v))) (elems v) ! k \<in> set (take (nat (sint (size_v v))) (elems v))"
    using assms l by (intro nth_mem) simp
  then have "take (nat (sint (size_v v))) (elems v) ! k \<noteq> None"
    using assms unfolding vector_inv_def by metis
  then have "elems v ! k \<noteq> None"
    using assms(2) by simp
  then show "elems v ! k = Some (contents v ! k)"
    using assms(2) l by (cases "elems v ! k") (simp_all add: contents_def)
qed

lemma length_contents: "vector_inv v \<Longrightarrow> length (contents v) = nat (sint (size_v v))"
  unfolding contents_def vector_inv_def by (auto simp: min_def)

lemma vector_get_ok:
  assumes "vector_inv v" "0 \<le> sint i" "sint i < sint (size_v v)"
  shows "vector_get v i = (Inr (contents v ! nat (sint i)), [Load (sint i)])"
proof -
  have k: "nat (sint i) < nat (sint (size_v v))" using assms by simp
  have g: "get_element v i = ret (sint i)"
    using assms by (simp add: get_element_ok vector_inv_def)
  show ?thesis
    unfolding vector_get_def g bind_ret
    using assms slot_initialised [OF assms(1) k] by (simp add: load_ok)
qed

lemma vector_set_ok:
  assumes "vector_inv v" "0 \<le> sint i" "sint i < sint (size_v v)"
  shows "vector_set v i x = (Inr (v\<lparr>elems := (elems v)[nat (sint i) := Some x]\<rparr>), [Store (sint i)])"
proof -
  have k: "nat (sint i) < nat (sint (size_v v))" using assms by simp
  have g: "get_element v i = ret (sint i)"
    using assms by (simp add: get_element_ok vector_inv_def)
  show ?thesis
    unfolding vector_set_def g bind_ret
    using assms slot_initialised(2) [OF assms(1) k] by (simp add: store_ok bind_ok ret_def)
qed

lemma int_fits_sint: "int_fits (sint (w :: cint))"
  using sint_cint_range [of w] by (simp add: int_fits_def)

lemma sint_one_cint: "sint (1 :: cint) = 1"
  by simp

lemma vector_remove_ok:
  assumes inv: "vector_inv v" and lo: "0 \<le> sint i" and hi: "sint i < sint (size_v v)"
  shows "vector_remove v i =
    (Inr (contents v ! nat (sint i),
          v\<lparr>elems := take (nat (sint i)) (elems v)
                       @ take (nat (sint (size_v v)) - nat (sint i) - 1) (drop (nat (sint i) + 1) (elems v))
                       @ drop (nat (sint (size_v v)) - 1) (elems v),
            size_v := size_v v - 1\<rparr>),
     [Load (sint i), Move (sint i) (sint i + 1) (nat (sint (size_v v)) - nat (sint i) - 1)])"
proof -
  let ?k = "nat (sint i)" and ?n = "nat (sint (size_v v))"
  have k: "?k < ?n" using lo hi by simp
  have len: "?n \<le> length (elems v)" using inv unfolding vector_inv_def by linarith
  have rng: "sint (size_v v) < 2 ^ 31" using sint_cint_range [of "size_v v"] by simp
  have g: "get_element v i = ret (sint i)"
    using inv lo hi by (simp add: get_element_ok vector_inv_def)
  have ld: "load (elems v) (sint i) = (Inr (contents v ! ?k), [Load (sint i)])"
    using slot_initialised [OF inv k] lo by (simp add: load_ok)
  have f1: "int_fits (sint (size_v v) - sint i)"
    using lo hi rng by (simp add: int_fits_def)
  have d: "sub_int (size_v v) i = ret (size_v v - i)"
    using f1 by (rule sub_int_ok)
  have sd: "sint (size_v v - i) = sint (size_v v) - sint i"
    using f1 by (rule sint_sub_fits)
  have f2: "int_fits (sint (size_v v - i) - sint (1 :: cint))"
    using lo hi rng by (simp add: int_fits_def sd)
  have r: "sub_int (size_v v - i) 1 = ret (size_v v - i - 1)"
    using f2 by (rule sub_int_ok)
  have sr: "sint (size_v v - i - 1) = sint (size_v v) - sint i - 1"
    using sint_sub_fits [OF f2] by (simp add: sd)
  have nr: "nat (sint (size_v v - i - 1)) = ?n - ?k - 1"
    using lo hi by (simp add: sr nat_diff_distrib)
  have mm: "memmove (elems v) (sint i) (sint i + 1) (scast (size_v v - i - 1) * sizeof_ptr) =
      (Inr (take ?k (elems v) @ take (?n - ?k - 1) (drop (?k + 1) (elems v)) @ drop (?n - 1) (elems v)),
       [Move (sint i) (sint i + 1) (?n - ?k - 1)])"
  proof -
    have a: "0 \<le> sint (size_v v - i - 1)" using hi by (simp add: sr)
    have b: "in_block (elems v) (sint i) (nat (sint (size_v v - i - 1)))"
      using lo k len unfolding in_block_def nr by linarith
    have c: "in_block (elems v) (sint i + 1) (nat (sint (size_v v - i - 1)))"
      using lo k len unfolding in_block_def nr by linarith
    have e: "nat (sint i + 1) = ?k + 1" using lo by (simp add: nat_add_distrib)
    have e': "?k + (?n - ?k - 1) = ?n - 1" using k by arith
    show ?thesis
      unfolding memmove_ok [OF a b c] nr e e' by simp
  qed
  have f3: "int_fits (sint (size_v v) - sint (1 :: cint))"
    using lo hi rng by (simp add: int_fits_def)
  have s: "sub_int (size_v v) 1 = ret (size_v v - 1)"
    using f3 by (rule sub_int_ok)
  show ?thesis
    unfolding vector_remove_def g bind_ret bind_ok [OF ld] d r bind_ok [OF mm] s
    by (simp add: ret_def)
qed

section \<open>Removal\<close>

lemma take_shift_left:
  assumes "k < n" "n \<le> length (m :: 'b list)"
  shows "take (n - 1) (take k m @ take (n - k - 1) (drop (k + 1) m) @ drop (n - 1) m)
         = take k (take n m) @ drop (k + 1) (take n m)"
    and "length (take k m @ take (n - k - 1) (drop (k + 1) m) @ drop (n - 1) m) = length m"
proof -
  define a b c where "a = take k m" and "b = take (n - k - 1) (drop (k + 1) m)"
    and "c = drop (n - 1) m"
  have la: "length (a @ b) = n - 1"
    using assms by (auto simp: a_def b_def min_def)
  have t: "take (n - 1) ((a @ b) @ c) = a @ b"
    using la by (metis append_eq_conv_conj)
  have e1: "b = drop (k + 1) (take n m)"
    by (simp add: b_def drop_take)
  have e2: "a = take k (take n m)"
    using assms by (simp add: a_def min_def)
  have "take (n - 1) (a @ b @ c) = a @ b"
    using t by simp
  also have "\<dots> = take k (take n m) @ drop (k + 1) (take n m)"
    using e1 e2 by blast
  finally show "take (n - 1) (take k m @ take (n - k - 1) (drop (k + 1) m) @ drop (n - 1) m)
         = take k (take n m) @ drop (k + 1) (take n m)"
    unfolding a_def b_def c_def .
  show "length (take k m @ take (n - k - 1) (drop (k + 1) m) @ drop (n - 1) m) = length m"
    using assms by (auto simp: min_def)
qed

lemma vector_remove_result:
  assumes inv: "vector_inv v" and lo: "0 \<le> sint i" and hi: "sint i < sint (size_v v)"
  obtains v' l where
    "vector_remove v i = (Inr (contents v ! nat (sint i), v'), l)"
    "l = [Load (sint i), Move (sint i) (sint i + 1) (nat (sint (size_v v)) - nat (sint i) - 1)]"
    "contents v' = take (nat (sint i)) (contents v) @ drop (nat (sint i) + 1) (contents v)"
    "sint (size_v v') = sint (size_v v) - 1"
    "size_v v' = size_v v - 1"
    "capacity v' = capacity v"
    "vector_inv v'"
proof -
  define k n m where "k = nat (sint i)" and "n = nat (sint (size_v v))" and "m = elems v"
  define v' where "v' = v\<lparr>elems := take k m @ take (n - k - 1) (drop (k + 1) m) @ drop (n - 1) m,
            size_v := size_v v - 1\<rparr>"
  have k: "k < n" using lo hi by (simp add: k_def n_def)
  have len: "n \<le> length m" using inv unfolding vector_inv_def n_def m_def by linarith
  have rng: "sint (size_v v) < 2 ^ 31" using sint_cint_range [of "size_v v"] by simp
  have ss: "sint (size_v v - 1) = sint (size_v v) - 1"
    using sint_sub_fits [of "size_v v" 1] lo hi rng by (simp add: int_fits_def)
  have n': "nat (sint (size_v v')) = n - 1"
    using lo hi by (simp add: v'_def ss nat_diff_distrib n_def)
  have tk: "take (n - 1) (elems v') = take k (take n m) @ drop (k + 1) (take n m)"
    using take_shift_left(1) [OF k len] by (simp add: v'_def)
  have c: "contents v' = take k (contents v) @ drop (k + 1) (contents v)"
    unfolding contents_def n' tk by (simp add: take_map drop_map n_def m_def)
  have none: "None \<notin> set (take n m)"
    using inv by (simp add: vector_inv_def n_def m_def)
  have sub: "set (take (n - 1) (elems v')) \<subseteq> set (take n m)"
    unfolding tk
    using set_take_subset [of k "take n m"] set_drop_subset [of "k + 1" "take n m"] by auto
  have lenv': "length (elems v') = length m"
    using take_shift_left(2) [OF k len] by (simp add: v'_def)
  have sv': "sint (size_v v') = sint (size_v v) - 1" by (simp add: v'_def ss)
  have cv': "capacity v' = capacity v" by (simp add: v'_def)
  have i': "vector_inv v'"
    unfolding vector_inv_def
  proof (intro conjI)
    show "0 \<le> sint (size_v v')" unfolding sv' using lo hi by linarith
    show "sint (size_v v') \<le> sint (capacity v')"
      unfolding sv' cv' using inv unfolding vector_inv_def by linarith
    show "1 \<le> sint (capacity v')"
      unfolding cv' using inv unfolding vector_inv_def by blast
    show "length (elems v') = nat (sint (capacity v'))"
      unfolding cv' using inv lenv' unfolding vector_inv_def m_def by simp
    show "None \<notin> set (take (nat (sint (size_v v'))) (elems v'))"
      unfolding n' using none sub by blast
  qed
  show thesis
  proof (rule that [of v'])
    show "vector_remove v i = (Inr (contents v ! nat (sint i), v'),
        [Load (sint i), Move (sint i) (sint i + 1) (nat (sint (size_v v)) - nat (sint i) - 1)])"
      unfolding v'_def k_def n_def m_def by (rule vector_remove_ok [OF inv lo hi])
    show "sint (size_v v') = sint (size_v v) - 1" by (simp add: v'_def ss)
    show "contents v' = take (nat (sint i)) (contents v) @ drop (nat (sint i) + 1) (contents v)"
      using c by (simp add: k_def)
  qed (simp_all add: i', simp_all add: v'_def)
qed

section \<open>Growth and insertion\<close>

section \<open>Growth and insertion\<close>

lemma take_shift_right:
  assumes "k \<le> n" "n + 1 \<le> length (m :: 'b list)"
  shows "take (n + 1) ((take (k + 1) m @ take (n - k) (drop k m) @ drop (n + 1) m)[k := y])
         = take k (take n m) @ y # drop k (take n m)"
    and "length ((take (k + 1) m @ take (n - k) (drop k m) @ drop (n + 1) m)[k := y]) = length m"
proof -
  define a b c where "a = take k m" and "b = take (n - k) (drop k m)" and "c = drop (n + 1) m"
  have kl: "k < length m" using assms by simp
  have la: "length a = k" using kl by (simp add: a_def)
  have lb: "length b = n - k" using assms by (simp add: b_def)
  have t1: "take (k + 1) m = a @ [m ! k]"
    using kl by (simp add: a_def take_Suc_conv_app_nth)
  have u: "(take (k + 1) m @ b @ c)[k := y] = a @ y # b @ c"
    unfolding t1 using la by (simp add: list_update_append)
  have l2: "length (a @ y # b) = n + 1" using la lb assms by simp
  have t: "take (n + 1) ((a @ y # b) @ c) = a @ y # b"
    using l2 by (metis append_eq_conv_conj)
  have e1: "b = drop k (take n m)" by (simp add: b_def drop_take)
  have e2: "a = take k (take n m)" using assms by (simp add: a_def min_def)
  have "take (n + 1) ((take (k + 1) m @ b @ c)[k := y]) = a @ y # b"
    unfolding u using t by simp
  also have "\<dots> = take k (take n m) @ y # drop k (take n m)"
    using e1 e2 by blast
  finally show "take (n + 1) ((take (k + 1) m @ take (n - k) (drop k m) @ drop (n + 1) m)[k := y])
         = take k (take n m) @ y # drop k (take n m)"
    unfolding b_def c_def .
  show "length ((take (k + 1) m @ take (n - k) (drop k m) @ drop (n + 1) m)[k := y]) = length m"
    using assms by (auto simp: min_def)
qed

lemma sint_two_cint: "sint (2 :: cint) = 2"
  by simp

lemma extend_keep:
  "\<not> sint (capacity v) < sint (size_v v) \<Longrightarrow> extend_if_necessary v = ret v"
  by (simp add: extend_if_necessary_def word_sless_alt)

lemma extend_overflow:
  "sint (capacity v) < sint (size_v v) \<Longrightarrow> 2 ^ 30 \<le> sint (capacity v) \<Longrightarrow>
   extend_if_necessary v = abort SignedOverflow"
  by (simp add: extend_if_necessary_def word_sless_alt mul_int_def int_fits_def bind_def abort_def)

lemma extend_grow:
  assumes gt: "sint (capacity v) < sint (size_v v)"
    and c1: "1 \<le> sint (capacity v)" and c2: "sint (capacity v) < 2 ^ 30"
    and len: "length (elems v) = nat (sint (capacity v))"
  shows "extend_if_necessary v =
    (Inr (v\<lparr>capacity := capacity v * 2,
            elems := elems v @ replicate (nat (sint (capacity v))) None\<rparr>),
     [Copy (nat (sint (capacity v)))])"
    and "sint (capacity v * 2) = 2 * sint (capacity v)"
proof -
  have f: "int_fits (sint (capacity v) * sint (2 :: cint))"
    using c1 c2 by (simp add: int_fits_def)
  have sm: "sint (capacity v * 2) = sint (capacity v) * 2"
    using sint_mul_fits [OF f] by simp
  then show "sint (capacity v * 2) = 2 * sint (capacity v)" by simp
  have mu: "mul_int (capacity v) 2 = ret (capacity v * 2)"
    using f by (simp add: mul_int_def)
  have n: "unat ((scast (capacity v * 2) :: size_t) * sizeof_ptr) div unat sizeof_ptr
           = nat (sint (capacity v * 2))"
    using c1 by (intro slots_of_bytes) (simp add: sm)
  have n2: "nat (sint (capacity v * 2)) = 2 * length (elems v)"
    using c1 by (simp add: sm len nat_mult_distrib)
  have re: "realloc (elems v) (scast (capacity v * 2) * sizeof_ptr) =
      (Inr (elems v @ replicate (length (elems v)) None), [Copy (length (elems v))])"
    unfolding realloc_def Let_def n n2 by simp
  show "extend_if_necessary v =
    (Inr (v\<lparr>capacity := capacity v * 2,
            elems := elems v @ replicate (nat (sint (capacity v))) None\<rparr>),
     [Copy (nat (sint (capacity v)))])"
    unfolding extend_if_necessary_def mu bind_ret bind_ok [OF re]
    using gt by (simp add: word_sless_alt ret_def len)
qed

lemma insert_tail:
  assumes lo: "0 \<le> sint i" and hi: "sint i < sint (size_v v1)"
    and len: "nat (sint (size_v v1)) \<le> length (elems v1)"
  shows "bind (get_element v1 i) (\<lambda>target.
     bind (sub_int (size_v v1) i) (\<lambda>d.
     bind (sub_int d 1) (\<lambda>remaining.
     bind (memmove (elems v1) (target + 1) target (scast remaining * sizeof_ptr)) (\<lambda>m.
     bind (store m target x) (\<lambda>m'.
     ret (v1\<lparr>elems := m'\<rparr>)))))) =
    (Inr (v1\<lparr>elems := (take (nat (sint i) + 1) (elems v1)
                          @ take (nat (sint (size_v v1)) - 1 - nat (sint i)) (drop (nat (sint i)) (elems v1))
                          @ drop (nat (sint (size_v v1))) (elems v1))[nat (sint i) := Some x]\<rparr>),
     [Move (sint i + 1) (sint i) (nat (sint (size_v v1)) - 1 - nat (sint i)), Store (sint i)])"
proof -
  define k n m where "k = nat (sint i)" and "n = nat (sint (size_v v1)) - 1" and "m = elems v1"
  have k: "k \<le> n" using lo hi by (simp add: k_def n_def)
  have n1: "nat (sint (size_v v1)) = n + 1" using lo hi by (simp add: n_def)
  have lenm: "n + 1 \<le> length m" using len n1 by (simp add: m_def)
  have rng: "sint (size_v v1) < 2 ^ 31" using sint_cint_range [of "size_v v1"] by simp
  have g: "get_element v1 i = ret (sint i)"
    using lo hi by (simp add: get_element_ok)
  have f1: "int_fits (sint (size_v v1) - sint i)"
    using lo hi rng by (simp add: int_fits_def)
  have d: "sub_int (size_v v1) i = ret (size_v v1 - i)"
    using f1 by (rule sub_int_ok)
  have sd: "sint (size_v v1 - i) = sint (size_v v1) - sint i"
    using f1 by (rule sint_sub_fits)
  have f2: "int_fits (sint (size_v v1 - i) - sint (1 :: cint))"
    using lo hi rng by (simp add: int_fits_def sd)
  have r: "sub_int (size_v v1 - i) 1 = ret (size_v v1 - i - 1)"
    using f2 by (rule sub_int_ok)
  have sr: "sint (size_v v1 - i - 1) = sint (size_v v1) - sint i - 1"
    using sint_sub_fits [OF f2] by (simp add: sd)
  have nr: "nat (sint (size_v v1 - i - 1)) = n - k"
    using lo hi by (simp add: sr nat_diff_distrib n_def k_def)
  define m2 where "m2 = take (k + 1) m @ take (n - k) (drop k m) @ drop (n + 1) m"
  have mm: "memmove m (sint i + 1) (sint i) (scast (size_v v1 - i - 1) * sizeof_ptr) =
      (Inr m2, [Move (sint i + 1) (sint i) (n - k)])"
  proof -
    have a: "0 \<le> sint (size_v v1 - i - 1)" using hi by (simp add: sr)
    have ik: "sint i = int k" using lo by (simp add: k_def)
    have b: "in_block m (sint i + 1) (nat (sint (size_v v1 - i - 1)))"
      using k lenm unfolding in_block_def nr ik by linarith
    have c: "in_block m (sint i) (nat (sint (size_v v1 - i - 1)))"
      using k lenm unfolding in_block_def nr ik by linarith
    have e: "nat (sint i + 1) = k + 1" using lo by (simp add: nat_add_distrib k_def)
    have e': "k + 1 + (n - k) = n + 1" using k by arith
    show ?thesis
      unfolding memmove_ok [OF a b c] nr e e' m2_def by (simp add: k_def)
  qed
  have l2: "length m2 = length m"
    using take_shift_right(2) [OF k lenm, of "undefined"] by (simp add: m2_def)
  have st: "store m2 (sint i) x = (Inr (m2[k := Some x]), [Store (sint i)])"
    using lo k lenm l2 by (simp add: store_ok k_def)
  have "bind (get_element v1 i) (\<lambda>target.
     bind (sub_int (size_v v1) i) (\<lambda>d.
     bind (sub_int d 1) (\<lambda>remaining.
     bind (memmove m (target + 1) target (scast remaining * sizeof_ptr)) (\<lambda>m.
     bind (store m target x) (\<lambda>m'.
     ret (v1\<lparr>elems := m'\<rparr>)))))) =
     (Inr (v1\<lparr>elems := m2[k := Some x]\<rparr>), [Move (sint i + 1) (sint i) (n - k), Store (sint i)])"
    unfolding g bind_ret d r bind_ok [OF mm] bind_ok [OF st] by (simp add: ret_def)
  then show ?thesis
    unfolding m2_def n1 by (simp add: k_def n_def m_def)
qed

lemma grown_facts:
  assumes inv: "vector_inv v"
    and room: "sint (size_v v) < sint (capacity v) \<or> sint (capacity v) < 2 ^ 30"
  shows "sint (size_v v + 1) = sint (size_v v) + 1"
    and "add_int (size_v v) 1 = ret (size_v v + 1)"
    and "\<exists>l. extend_if_necessary (v\<lparr>size_v := size_v v + 1\<rparr>) = (Inr (grown v), l)"
    and "sint (capacity (grown v)) =
      (if sint (size_v v) = sint (capacity v) then 2 * sint (capacity v) else sint (capacity v))"
    and "length (elems (grown v)) = nat (sint (capacity (grown v)))"
    and "nat (sint (size_v v)) + 1 \<le> length (elems (grown v))"
    and "take (nat (sint (size_v v))) (elems (grown v)) = take (nat (sint (size_v v))) (elems v)"
    and "size_v (grown v) = size_v v + 1"
proof -
  have s0: "0 \<le> sint (size_v v)" and sc: "sint (size_v v) \<le> sint (capacity v)"
    and c1: "1 \<le> sint (capacity v)" and lenm: "length (elems v) = nat (sint (capacity v))"
    using inv by (simp_all add: vector_inv_def)
  have crng: "sint (capacity v) < 2 ^ 31" using sint_cint_range [of "capacity v"] by simp
  have f: "int_fits (sint (size_v v) + sint (1 :: cint))"
    using s0 sc room crng by (auto simp: int_fits_def)
  show sp: "sint (size_v v + 1) = sint (size_v v) + 1"
    using sint_add_fits [OF f] by simp
  show "add_int (size_v v) 1 = ret (size_v v + 1)"
    using f by (rule add_int_ok)
  define v0 where "v0 = v\<lparr>size_v := size_v v + 1\<rparr>"
  show "\<exists>l. extend_if_necessary (v\<lparr>size_v := size_v v + 1\<rparr>) = (Inr (grown v), l)"
  proof (cases "sint (size_v v) < sint (capacity v)")
    case True
    then have "\<not> sint (capacity v0) < sint (size_v v0)" by (simp add: v0_def sp)
    then have "extend_if_necessary v0 = ret v0" by (rule extend_keep)
    then show ?thesis using True by (simp add: grown_def ret_def v0_def)
  next
    case False
    then have eq: "sint (size_v v) = sint (capacity v)" and c2: "sint (capacity v) < 2 ^ 30"
      using sc room by auto
    have "extend_if_necessary v0 =
      (Inr (v0\<lparr>capacity := capacity v0 * 2,
            elems := elems v0 @ replicate (nat (sint (capacity v0))) None\<rparr>),
       [Copy (nat (sint (capacity v0)))])"
      by (rule extend_grow(1)) (use eq c1 c2 lenm in \<open>simp_all add: v0_def sp\<close>)
    then show ?thesis using False by (simp add: grown_def v0_def)
  qed
  show cap1: "sint (capacity (grown v)) =
      (if sint (size_v v) = sint (capacity v) then 2 * sint (capacity v) else sint (capacity v))"
  proof (cases "sint (size_v v) < sint (capacity v)")
    case True then show ?thesis by (simp add: grown_def)
  next
    case False
    then have eq: "sint (size_v v) = sint (capacity v)" and c2: "sint (capacity v) < 2 ^ 30"
      using sc room by auto
    have "int_fits (sint (capacity v) * sint (2 :: cint))"
      using c1 c2 by (simp add: int_fits_def)
    from sint_mul_fits [OF this] show ?thesis using False eq by (simp add: grown_def)
  qed
  show len1: "length (elems (grown v)) = nat (sint (capacity (grown v)))"
    unfolding cap1 using lenm c1 sc by (auto simp: grown_def nat_mult_distrib)
  show "nat (sint (size_v v)) + 1 \<le> length (elems (grown v))"
    unfolding len1 cap1 using s0 sc c1 by auto
  show "take (nat (sint (size_v v))) (elems (grown v)) = take (nat (sint (size_v v))) (elems v)"
    using sc s0 lenm by (auto simp: grown_def)
  show "size_v (grown v) = size_v v + 1" by (simp add: grown_def)
qed

lemma vector_insert_ok:
  assumes inv: "vector_inv v" and lo: "0 \<le> sint i" and hi: "sint i \<le> sint (size_v v)"
    and room: "sint (size_v v) < sint (capacity v) \<or> sint (capacity v) < 2 ^ 30"
  shows "fst (vector_insert v i x) =
    Inr ((grown v)\<lparr>elems :=
      (take (nat (sint i) + 1) (elems (grown v))
       @ take (nat (sint (size_v v)) - nat (sint i)) (drop (nat (sint i)) (elems (grown v)))
       @ drop (nat (sint (size_v v)) + 1) (elems (grown v)))[nat (sint i) := Some x]\<rparr>)"
proof -
  note g = grown_facts [OF inv room]
  have s0: "0 \<le> sint (size_v v)" using inv by (simp add: vector_inv_def)
  obtain l1 where ex1: "extend_if_necessary (v\<lparr>size_v := size_v v + 1\<rparr>) = (Inr (grown v), l1)"
    using g(3) ..
  have ns: "nat (sint (size_v (grown v))) = nat (sint (size_v v)) + 1"
    using s0 by (simp add: g(8) g(1) nat_add_distrib)
  have a: "sint i < sint (size_v (grown v))" using hi by (simp add: g(8) g(1))
  have b: "nat (sint (size_v (grown v))) \<le> length (elems (grown v))" using g(6) ns by simp
  show ?thesis
    unfolding vector_insert_def g(2) bind_ret bind_ok [OF ex1] insert_tail [OF lo a b] ns
    by simp
qed

lemma vector_insert_result:
  assumes inv: "vector_inv v" and lo: "0 \<le> sint i" and hi: "sint i \<le> sint (size_v v)"
    and room: "sint (size_v v) < sint (capacity v) \<or> sint (capacity v) < 2 ^ 30"
  obtains v' where
    "fst (vector_insert v i x) = Inr v'"
    "contents v' = take (nat (sint i)) (contents v) @ x # drop (nat (sint i)) (contents v)"
    "sint (size_v v') = sint (size_v v) + 1"
    "size_v v' = size_v v + 1"
    "sint (capacity v') =
       (if sint (size_v v) = sint (capacity v) then 2 * sint (capacity v) else sint (capacity v))"
    "vector_inv v'"
proof -
  note g = grown_facts [OF inv room]
  define k n m where "k = nat (sint i)" and "n = nat (sint (size_v v))" and "m = elems v"
  define m1 where "m1 = elems (grown v)"
  define m' where "m' = (take (k + 1) m1 @ take (n - k) (drop k m1) @ drop (n + 1) m1)[k := Some x]"
  define v' where "v' = (grown v)\<lparr>elems := m'\<rparr>"
  have s0: "0 \<le> sint (size_v v)" and sc: "sint (size_v v) \<le> sint (capacity v)"
    and c1: "1 \<le> sint (capacity v)"
    and none: "None \<notin> set (take n m)"
    using inv by (simp_all add: vector_inv_def n_def m_def)
  have k: "k \<le> n" using lo hi by (simp add: k_def n_def)
  have n1: "n + 1 \<le> length m1" using g(6) by (simp add: n_def m1_def)
  have tk1: "take n m1 = take n m" using g(7) by (simp add: n_def m1_def m_def)
  have run: "fst (vector_insert v i x) = Inr v'"
    unfolding v'_def m'_def m1_def k_def n_def by (rule vector_insert_ok [OF inv lo hi room])
  have sv': "sint (size_v v') = sint (size_v v) + 1" by (simp add: v'_def g(8) g(1))
  have ns': "nat (sint (size_v v')) = n + 1"
    unfolding sv' using s0 by (simp add: n_def nat_add_distrib)
  have ev: "elems v' = m'" by (simp add: v'_def)
  have cv': "sint (capacity v') =
       (if sint (size_v v) = sint (capacity v) then 2 * sint (capacity v) else sint (capacity v))"
    using g(4) by (simp add: v'_def)
  have tkm: "take (n + 1) m' = take k (take n m) @ Some x # drop k (take n m)"
    using take_shift_right(1) [OF k n1, of "Some x"] by (simp add: m'_def tk1)
  have lm': "length m' = length m1"
    using take_shift_right(2) [OF k n1, of "Some x"] by (simp add: m'_def)
  have cv: "contents v = map the (take n m)" by (simp add: contents_def n_def m_def)
  have con: "contents v' = take k (contents v) @ x # drop k (contents v)"
    unfolding contents_def [of v'] ns' ev tkm cv by (simp add: take_map drop_map del: take_take)
  have nn: "None \<notin> set (take (n + 1) m')"
    unfolding tkm using none set_take_subset [of k "take n m"] set_drop_subset [of k "take n m"]
    by auto
  have i': "vector_inv v'"
    unfolding vector_inv_def
  proof (intro conjI)
    show "0 \<le> sint (size_v v')" unfolding sv' using s0 by linarith
    show "sint (size_v v') \<le> sint (capacity v')"
      unfolding sv' cv' using sc c1 by (simp split: if_splits)
    show "1 \<le> sint (capacity v')" unfolding cv' using c1 by simp
    show "length (elems v') = nat (sint (capacity v'))"
      unfolding ev lm' m1_def using g(5) by (simp add: v'_def)
    show "None \<notin> set (take (nat (sint (size_v v'))) (elems v'))"
      unfolding ns' ev by (rule nn)
  qed
  show thesis
  proof (rule that [of v'])
    show "contents v' = take (nat (sint i)) (contents v) @ x # drop (nat (sint i)) (contents v)"
      using con by (simp add: k_def)
    show "size_v v' = size_v v + 1" by (simp add: v'_def g(8))
  qed (rule run sv' cv' i')+
qed

lemma vector_insert_overflow:
  assumes inv: "vector_inv v"
    and full: "sint (size_v v) = sint (capacity v)" and big: "2 ^ 30 \<le> sint (capacity v)"
  shows "vector_insert v i x = (Inl SignedOverflow, [])"
proof (cases "int_fits (sint (size_v v) + sint (1 :: cint))")
  case False
  then show ?thesis by (simp add: vector_insert_def add_int_def bind_def abort_def)
next
  case True
  have sp: "sint (size_v v + 1) = sint (size_v v) + 1"
    using sint_add_fits [OF True] by simp
  have ad: "add_int (size_v v) 1 = ret (size_v v + 1)"
    using True by (rule add_int_ok)
  have "extend_if_necessary (v\<lparr>size_v := size_v v + 1\<rparr>) = abort SignedOverflow"
    by (rule extend_overflow) (use full big in \<open>simp_all add: sp\<close>)
  then show ?thesis
    unfolding vector_insert_def ad bind_ret by (simp add: bind_def abort_def)
qed

lemma vector_create_eq:
  "vector_create = (Inr \<lparr>elems = [None], capacity = 1, size_v = 0\<rparr>, [])"
  by (simp add: vector_create_def malloc_def sizeof_ptr_def bind_def ret_def)

lemma vector_inv_create: "vector_inv \<lparr>elems = [None], capacity = 1, size_v = 0\<rparr>"
  by (simp add: vector_inv_def)

lemma vector_pop_eq:
  assumes "0 < sint (size_v v)"
  shows "vector_pop v = vector_remove v (size_v v - 1)"
    and "sint (size_v v - 1) = sint (size_v v) - 1"
proof -
  have f: "int_fits (sint (size_v v) - sint (1 :: cint))"
    using assms sint_cint_range [of "size_v v"] by (simp add: int_fits_def)
  show "vector_pop v = vector_remove v (size_v v - 1)"
    unfolding vector_pop_def sub_int_ok [OF f] bind_ret ..
  show "sint (size_v v - 1) = sint (size_v v) - 1"
    using sint_sub_fits [OF f] by simp
qed

lemma vector_set_inv:
  assumes inv: "vector_inv v" and lo: "0 \<le> sint i" and hi: "sint i < sint (size_v v)"
  shows "vector_inv (v\<lparr>elems := (elems v)[nat (sint i) := Some x]\<rparr>)"
proof -
  have "set (take (nat (sint (size_v v))) ((elems v)[nat (sint i) := Some x]))
        \<subseteq> insert (Some x) (set (take (nat (sint (size_v v))) (elems v)))"
    unfolding take_update_swap by (rule set_update_subset_insert)
  then show ?thesis
    using inv unfolding vector_inv_def by auto
qed

lemma run_call_inv:
  assumes inv: "vector_inv v" and pre: "precondition v c" and run: "run_call v c = Inr v'"
  shows "vector_inv v' \<and> sint (capacity v) \<le> sint (capacity v') \<and>
         ((\<exists>i. c = Call_remove i) \<or> c = Call_pop \<longrightarrow> capacity v' = capacity v)"
proof -
  have c1: "1 \<le> sint (capacity v)" and sc: "sint (size_v v) \<le> sint (capacity v)"
    and s0: "0 \<le> sint (size_v v)"
    using inv by (simp_all add: vector_inv_def)
  have ins: "vector_inv v' \<and> sint (capacity v) \<le> sint (capacity v')"
    if lo: "0 \<le> sint i" and hi: "sint i \<le> sint (size_v v)"
      and r: "fst (vector_insert v i x) = Inr v'" for i x
  proof (cases "sint (size_v v) < sint (capacity v) \<or> sint (capacity v) < 2 ^ 30")
    case True
    from vector_insert_result [OF inv lo hi True, of x] obtain w where
      w: "fst (vector_insert v i x) = Inr w" "vector_inv w"
        "sint (capacity w) =
          (if sint (size_v v) = sint (capacity v) then 2 * sint (capacity v) else sint (capacity v))"
      by metis
    have "w = v'" using w(1) r by simp
    then show ?thesis using w(2,3) c1 by (auto split: if_splits)
  next
    case False
    then have "sint (size_v v) = sint (capacity v)" "2 ^ 30 \<le> sint (capacity v)"
      using sc by auto
    from vector_insert_overflow [OF inv this, of i x] r show ?thesis by simp
  qed
  have rem: "vector_inv v' \<and> capacity v' = capacity v"
    if lo: "0 \<le> sint i" and hi: "sint i < sint (size_v v)"
      and r: "map_sum id snd (fst (vector_remove v i)) = Inr v'" for i
  proof -
    from vector_remove_result [OF inv lo hi] obtain w l where
      w: "vector_remove v i = (Inr (contents v ! nat (sint i), w), l)" "vector_inv w"
        "capacity w = capacity v"
      by metis
    have "w = v'" using w(1) r by simp
    then show ?thesis using w(2,3) by simp
  qed
  show ?thesis
  proof (cases c)
    case (Call_set i x)
    then have lo: "0 \<le> sint i" and hi: "sint i < sint (size_v v)" using pre by simp_all
    have "v' = v\<lparr>elems := (elems v)[nat (sint i) := Some x]\<rparr>"
      using run vector_set_ok [OF inv lo hi, of x] Call_set by simp
    then show ?thesis using vector_set_inv [OF inv lo hi, of x] Call_set by simp
  next
    case (Call_insert i x)
    then show ?thesis using ins [of i x] pre run by simp
  next
    case (Call_remove i)
    then show ?thesis using rem [of i] pre run by simp
  next
    case (Call_push x)
    then show ?thesis using ins [of "size_v v" x] s0 run by (simp add: vector_push_def)
  next
    case Call_pop
    then have p: "0 < sint (size_v v)" using pre by simp
    show ?thesis
      using rem [of "size_v v - 1"] p run Call_pop
      by (simp add: vector_pop_eq [OF p])
  qed
qed

lemma reachable_inv: "reachable v \<Longrightarrow> vector_inv v"
proof (induction rule: reachable.induct)
  case (created v)
  then have "v = \<lparr>elems = [None], capacity = 1, size_v = 0\<rparr>"
    by (simp add: vector_create_eq)
  then show ?case using vector_inv_create by blast
next
  case (called v c v')
  then show ?case using run_call_inv by blast
qed

lemma cap_after_bounds:
  "n \<le> cap_after n \<and> 1 \<le> cap_after n \<and> (\<exists>j. cap_after n = 2 ^ j) \<and> (1 \<le> n \<longrightarrow> cap_after n < 2 * n)"
proof (induction n)
  case 0
  show ?case by (simp add: exI [of _ 0])
next
  case (Suc n)
  then obtain j where j: "cap_after n = 2 ^ j" by blast
  have ih: "n \<le> cap_after n" "1 \<le> cap_after n" "1 \<le> n \<longrightarrow> cap_after n < 2 * n"
    using Suc by simp_all
  show ?case
  proof (cases "cap_after n < Suc n")
    case True
    then have e: "cap_after (Suc n) = 2 * cap_after n" by simp
    have "cap_after (Suc n) = 2 ^ Suc j" using e j by simp
    then have "\<exists>j. cap_after (Suc n) = 2 ^ j" by blast
    then show ?thesis unfolding e using ih True by auto
  next
    case False
    then have e: "cap_after (Suc n) = cap_after n" by simp
    have x: "\<exists>j. cap_after (Suc n) = 2 ^ j" unfolding e using j by blast
    have "cap_after n < 2 * Suc n"
    proof (cases "n = 0")
      case True
      then show ?thesis by simp
    next
      case False
      then show ?thesis using ih(3) by simp
    qed
    then show ?thesis using x ih False unfolding e by simp
  qed
qed

lemma cap_after_le:
  assumes "n \<le> 2 ^ 30"
  shows "cap_after n \<le> 2 ^ 30"
proof (cases "n = 0")
  case True
  then show ?thesis by simp
next
  case False
  obtain j where j: "cap_after n = 2 ^ j" using cap_after_bounds [of n] by blast
  have "cap_after n < 2 * n" using cap_after_bounds [of n] False by simp
  then have "(2 :: nat) ^ j < 2 ^ 31" using assms j by simp
  then have "j < 31" by (simp only: power_strict_increasing_iff) 
  then have "j \<le> 30" by simp
  then have "(2 :: nat) ^ j \<le> 2 ^ 30" by (simp only: power_increasing_iff) 
  then show ?thesis using j by simp
qed

lemma cap_after_full: "cap_after (2 ^ 30) = 2 ^ 30"
  using cap_after_le [of "2 ^ 30"] cap_after_bounds [of "2 ^ 30"] by simp

lemma sint_of_nat_cint: "n < 2 ^ 31 \<Longrightarrow> sint (of_nat n :: cint) = int n"
  by (simp add: signed_of_nat signed_take_bit_int_eq_self)

lemma pushed_sint:
  assumes "n \<le> 2 ^ 30"
  shows "sint (size_v (pushed n x)) = int n"
    and "sint (capacity (pushed n x)) = int (cap_after n)"
proof -
  have "n < 2 ^ 31" using assms by simp
  then show "sint (size_v (pushed n x)) = int n"
    by (simp add: pushed_def sint_of_nat_cint)
  have "cap_after n < 2 ^ 31" using cap_after_le [OF assms] by simp
  then show "sint (capacity (pushed n x)) = int (cap_after n)"
    by (simp add: pushed_def sint_of_nat_cint)
qed

lemma pushed_inv:
  assumes "n \<le> 2 ^ 30"
  shows "vector_inv (pushed n x)"
proof -
  have le: "n \<le> cap_after n" and c1: "1 \<le> cap_after n"
    using cap_after_bounds [of n] by simp_all
  have el: "elems (pushed n x) = replicate n (Some x) @ replicate (cap_after n - n) None"
    by (simp add: pushed_def)
  show ?thesis
    unfolding vector_inv_def pushed_sint [OF assms] el
    using le c1 by simp
qed

lemma push_pushed:
  assumes "n < 2 ^ 30"
  shows "fst (vector_push (pushed n x) x) = Inr (pushed (Suc n) x)"
proof -
  define v where "v = pushed n x"
  define c where "c = cap_after n"
  have n30: "n \<le> 2 ^ 30" using assms by simp
  have le: "n \<le> c" and c1: "1 \<le> c"
    using cap_after_bounds [of n] by (simp_all add: c_def)
  have c30: "c \<le> 2 ^ 30" using cap_after_le [OF n30] by (simp add: c_def)
  have inv: "vector_inv v" unfolding v_def by (rule pushed_inv [OF n30])
  have ss: "sint (size_v v) = int n" and sc: "sint (capacity v) = int c"
    unfolding v_def c_def by (rule pushed_sint [OF n30])+
  have el: "elems v = replicate n (Some x) @ replicate (c - n) None"
    by (simp add: v_def pushed_def c_def)
  have room: "sint (size_v v) < sint (capacity v) \<or> sint (capacity v) < 2 ^ 30"
    unfolding ss sc using le assms by auto
  have lo: "0 \<le> sint (size_v v)" and hi: "sint (size_v v) \<le> sint (size_v v)"
    unfolding ss by simp_all
  define m1 where "m1 = elems (grown v)"
  have ln: "n < length m1"
    using grown_facts(6) [OF inv room] by (simp add: ss m1_def)
  have run: "fst (vector_push v x) = Inr ((grown v)\<lparr>elems := m1[n := Some x]\<rparr>)"
  proof -
    have "(take (n + 1) m1 @ take (n - n) (drop n m1) @ drop (n + 1) m1) = m1"
      by simp
    then show ?thesis
      unfolding vector_push_def vector_insert_ok [OF inv lo hi room] ss
      by (simp add: m1_def)
  qed
  have "size_v v = of_nat n" by (simp add: v_def pushed_def)
  then have sz: "size_v (grown v) = of_nat (Suc n)"
    unfolding grown_facts(8) [OF inv room] by simp
  have cv: "capacity v = of_nat c" by (simp add: v_def pushed_def c_def)
  have fields: "m1[n := Some x] = replicate (Suc n) (Some x) @ replicate (cap_after (Suc n) - Suc n) None
      \<and> capacity (grown v) = of_nat (cap_after (Suc n))"
  proof (cases "n < c")
    case True
    then have g: "grown v = v\<lparr>size_v := size_v v + 1\<rparr>"
      by (simp add: grown_def ss sc)
    have ca: "cap_after (Suc n) = c" using True by (simp add: c_def)
    have "replicate (c - n) None = None # replicate (c - Suc n) (None :: 'a option)"
      using True by (cases "c - n") simp_all
    then have "m1[n := Some x] = replicate (Suc n) (Some x) @ replicate (c - Suc n) None"
      by (simp add: m1_def g el list_update_append replicate_app_Cons_same)
    then show ?thesis unfolding ca by (simp add: g cv)
  next
    case False
    then have nc: "c = n" using le by simp
    then have n1: "1 \<le> n" using c1 by simp
    have g: "grown v = v\<lparr>elems := elems v @ replicate n None, capacity := capacity v * 2,
        size_v := size_v v + 1\<rparr>"
      using nc by (simp add: grown_def ss sc)
    have ca: "cap_after (Suc n) = 2 * n" using nc by (simp add: c_def)
    have "replicate n None = None # replicate (n - 1) (None :: 'a option)"
      using n1 by (cases n) simp_all
    then have "m1[n := Some x] = replicate (Suc n) (Some x) @ replicate (n - 1) None"
      by (simp add: m1_def g el nc list_update_append replicate_app_Cons_same)
    then show ?thesis unfolding ca using nc by (simp add: g cv)
  qed
  have "(grown v)\<lparr>elems := m1[n := Some x]\<rparr> =
      \<lparr>elems = m1[n := Some x], capacity = capacity (grown v), size_v = size_v (grown v)\<rparr>"
    by simp
  also have "\<dots> = pushed (Suc n) x"
    unfolding sz pushed_def [of "Suc n"] using fields by simp
  finally show ?thesis using run by (simp add: v_def)
qed

lemma reachable_pushed: "n \<le> 2 ^ 30 \<Longrightarrow> reachable (pushed n x)"
proof (induction n)
  case 0
  show ?case
    by (rule created) (simp add: pushed_def vector_create_eq)
next
  case (Suc n)
  then have r: "reachable (pushed n x)" and lt: "n < 2 ^ 30" by simp_all
  show ?case
    by (rule called [OF r, of "Call_push x"]) (simp_all add: push_pushed [OF lt])
qed

lemma full_vector_pushed: "full_vector = pushed (2 ^ 30) 0"
proof -
  have "cap_after 1073741824 = 1073741824" using cap_after_full by simp
  then show ?thesis by (simp add: full_vector_def pushed_def)
qed

lemma reachable_full_vector: "reachable full_vector"
  unfolding full_vector_pushed by (rule reachable_pushed) simp

lemma vector_inv_full_vector: "vector_inv full_vector"
  by (rule reachable_inv [OF reachable_full_vector])

section \<open>The claims\<close>

lemma vector_inv_sample: "vector_inv sample"
  by (simp add: sample_def vector_inv_def)

text \<open>
  C3. For every well-formed vector \<open>v\<close> and every \<^verbatim>\<open>int\<close> value \<open>i\<close>, negative ones and
  ones at or above the size included, \<^verbatim>\<open>vector_in_bounds(v, i)\<close> is true if and only if
  \<open>0 \<le> i < size(v)\<close>.
\<close>

theorem in_bounds_iff:
  assumes "vector_inv v"
  shows "vector_in_bounds v i \<longleftrightarrow> (0 \<le> sint i \<and> sint i < sint (size_v v))"
proof -
  have "0 \<le> sint (size_v v)" using assms by (simp add: vector_inv_def)
  then show ?thesis unfolding vector_in_bounds_def by (rule ult_scast_iff)
qed

theorem in_bounds_iff_witness:
  "vector_inv sample \<and> \<not> vector_in_bounds sample (- 1) \<and> vector_in_bounds sample 0 \<and>
   vector_in_bounds sample 2 \<and> \<not> vector_in_bounds sample 3 \<and>
   \<not> vector_in_bounds sample (- 2147483648) \<and> \<not> vector_in_bounds sample 2147483647"
  using in_bounds_iff [OF vector_inv_sample, of "- 1"] in_bounds_iff [OF vector_inv_sample, of 0]
    in_bounds_iff [OF vector_inv_sample, of 2] in_bounds_iff [OF vector_inv_sample, of 3]
    in_bounds_iff [OF vector_inv_sample, of "- 2147483648"]
    in_bounds_iff [OF vector_inv_sample, of 2147483647]
    vector_inv_sample
  by (simp add: sample_def)

text \<open>
  C4. The claim that some vector accepts some negative index as in bounds is false on the
  code: no well-formed vector and negative index make \<^verbatim>\<open>vector_in_bounds\<close> true
  (\<open>in_bounds_negative_refuted\<close>). What holds instead: the conversion to \<^verbatim>\<open>size_t\<close> turns
  a negative index into a value of at least \<open>2 ^ 64 - 2 ^ 31\<close>, the size converts to a value
  below \<open>2 ^ 31\<close>, and so every negative index is rejected.
\<close>

theorem in_bounds_negative_refuted:
  "\<not> (\<exists>(v :: 'a vector) i. vector_inv v \<and> sint i < 0 \<and> vector_in_bounds v i)"
proof
  assume "\<exists>(v :: 'a vector) i. vector_inv v \<and> sint i < 0 \<and> vector_in_bounds v i"
  then obtain v :: "'a vector" and i where
    v: "vector_inv v" and i: "sint i < 0" and b: "vector_in_bounds v i"
    by blast
  have "0 \<le> sint (size_v v)" using v by (simp add: vector_inv_def)
  then have "0 \<le> sint i" using b unfolding vector_in_bounds_def by (simp add: ult_scast_iff)
  then show False using i by simp
qed

theorem in_bounds_rejects_negative:
  assumes "vector_inv v" and "sint i < 0"
  shows "\<not> vector_in_bounds v i \<and> 2 ^ 64 - 2 ^ 31 \<le> uint (scast i :: size_t) \<and>
         uint (scast (size_v v) :: size_t) < 2 ^ 31"
proof -
  have s: "0 \<le> sint (size_v v)" using assms(1) by (simp add: vector_inv_def)
  have "\<not> vector_in_bounds v i"
    unfolding vector_in_bounds_def ult_scast_iff [OF s] using assms(2) by simp
  moreover have "2 ^ 64 - 2 ^ 31 \<le> uint (scast i :: size_t)"
    using assms(2) sint_cint_range [of i] by (simp add: uint_scast_cint)
  moreover have "uint (scast (size_v v) :: size_t) < 2 ^ 31"
    using s sint_cint_range [of "size_v v"] by (simp add: uint_scast_cint)
  ultimately show ?thesis by blast
qed

theorem in_bounds_rejects_negative_witness:
  "vector_inv sample \<and> sint (- 1 :: cint) < 0 \<and> \<not> vector_in_bounds sample (- 1) \<and>
   2 ^ 64 - 2 ^ 31 \<le> uint (scast (- 1 :: cint) :: size_t)"
proof -
  have n: "sint (- 1 :: cint) < 0" by simp
  show ?thesis
    using in_bounds_rejects_negative [OF vector_inv_sample n] vector_inv_sample n by blast
qed

text \<open>
  C7. \<^verbatim>\<open>vector_push(v, x)\<close> is \<^verbatim>\<open>vector_insert(v, size, x)\<close>: same result, same final state,
  same slot accesses. For every non-empty vector, \<^verbatim>\<open>vector_pop(v)\<close> is
  \<^verbatim>\<open>vector_remove(v, size - 1)\<close>, where \<open>size - 1\<close> is computed without overflow.
\<close>

theorem push_pop_delegate:
  "vector_push v x = vector_insert v (size_v v) x \<and>
   (0 < sint (size_v v) \<longrightarrow>
      vector_pop v = vector_remove v (size_v v - 1) \<and>
      sint (size_v v - 1) = sint (size_v v) - 1)"
  using vector_pop_eq [of v] by (simp add: vector_push_def)

theorem push_pop_delegate_witness:
  "vector_push sample 40 = vector_insert sample (size_v sample) 40 \<and>
   0 < sint (size_v sample) \<and>
   vector_pop sample = vector_remove sample (size_v sample - 1) \<and>
   size_v sample - 1 = 2 \<and>
   fst (vector_pop sample) =
     Inr (30, \<lparr>elems = [Some 10, Some 20, Some 30, None], capacity = 4, size_v = 2\<rparr>)"
proof -
  have p: "0 < sint (size_v sample)" by (simp add: sample_def)
  have r: "fst (vector_remove sample 2) =
     Inr (30, \<lparr>elems = [Some 10, Some 20, Some 30, None], capacity = 4, size_v = 2\<rparr>)"
    using vector_remove_ok [OF vector_inv_sample, of 2]
    by (simp add: sample_def contents_def)
  have s: "size_v sample - 1 = 2" by (simp add: sample_def)
  show ?thesis
    using push_pop_delegate [of sample 40] p r s by simp
qed

end
